theory Spec2Isabelle
  imports Main "HOL-Library.Word"
begin

unbundle bit_operations_syntax

section \<open>Bytes and text\<close>

text \<open>
  A C or C++ \<open>char\<close> read through \<open>unsigned char\<close> is an 8-bit word; a
  \<open>std::string\<close> and a C string are lists of such bytes. \<open>unsigned int\<close> and
  \<open>uint32_t\<close> are 32-bit words, \<open>size_t\<close> is a 64-bit word.
\<close>

type_synonym byte = "8 word"
type_synonym u32 = "32 word"
type_synonym u64 = "64 word"

definition bytes_of :: "string \<Rightarrow> byte list" where
  "bytes_of s = map of_char s"

section \<open>Base64 of the pub/sub client (client.cpp)\<close>

text \<open>The alphabet \<open>B64\<close> and the padding character.\<close>

definition B64 :: "byte list" where
  "B64 = bytes_of ''ABCDEFGHIJKLMNOPQRSTUVWXYZabcdefghijklmnopqrstuvwxyz0123456789+/''"

definition pad :: byte where
  "pad = of_char CHR ''=''"

text \<open>
  \<open>init_rev\<close> fills the 256-entry table: 255 everywhere, then the index of every
  alphabet character, then 254 for the padding character.
\<close>

definition init_rev :: "byte list" where
  "init_rev =
     (foldl (\<lambda>r i. r[unat (B64 ! i) := of_nat i]) (replicate 256 255) [0..<64])
       [unat pad := 254]"

definition REV :: "byte \<Rightarrow> byte" where
  "REV c = init_rev ! unat c"

text \<open>
  \<open>b64_encode\<close>: the loop \<open>for (i = 0; i < n; i += 3)\<close>, with \<open>out\<close> the string
  built so far.
\<close>

function b64_encode_loop :: "byte list \<Rightarrow> nat \<Rightarrow> byte list \<Rightarrow> byte list" where
  "b64_encode_loop d i out =
     (if i < length d then
        let v0 = (push_bit 16 (ucast (d ! i)) :: u32);
            v1 = (if i + 1 < length d then v0 OR push_bit 8 (ucast (d ! (i + 1))) else v0);
            v = (if i + 2 < length d then v1 OR ucast (d ! (i + 2)) else v1);
            out1 = out @ [B64 ! unat (drop_bit 18 v AND 63)];
            out2 = out1 @ [B64 ! unat (drop_bit 12 v AND 63)];
            out3 = out2 @ [if i + 1 < length d then B64 ! unat (drop_bit 6 v AND 63) else pad];
            out4 = out3 @ [if i + 2 < length d then B64 ! unat (v AND 63) else pad]
        in b64_encode_loop d (i + 3) out4
      else out)"
  by pat_completeness auto
termination
  by (relation "measure (\<lambda>(d, i, out). length d - i)") auto

definition b64_encode :: "byte list \<Rightarrow> byte list" where
  "b64_encode d = b64_encode_loop d 0 []"

text \<open>
  \<open>b64_decode\<close>: \<open>None\<close> is the \<open>false\<close> return, \<open>Some out\<close> the \<open>true\<close> return
  with the decoded string. The length test comes first, so the four reads of a
  round are inside the input.
\<close>

function b64_decode_loop :: "byte list \<Rightarrow> nat \<Rightarrow> byte list \<Rightarrow> byte list option" where
  "b64_decode_loop inp i out =
     (if i < length inp then
        let c0 = REV (inp ! i);
            c1 = REV (inp ! (i + 1));
            c2 = REV (inp ! (i + 2));
            c3 = REV (inp ! (i + 3))
        in if c0 = 255 \<or> c1 = 255 \<or> c2 = 255 \<or> c3 = 255 then None
           else
             let v = (push_bit 18 (ucast c0) OR push_bit 12 (ucast c1) :: u32);
                 out1 = out @ [ucast (drop_bit 16 v AND 0xFF)]
             in if c2 \<noteq> 254 then
                  let v2 = v OR push_bit 6 (ucast c2);
                      out2 = out1 @ [ucast (drop_bit 8 v2 AND 0xFF)]
                  in if c3 \<noteq> 254 then
                       let v3 = v2 OR ucast c3
                       in b64_decode_loop inp (i + 4) (out2 @ [ucast (v3 AND 0xFF)])
                     else b64_decode_loop inp (i + 4) out2
                else b64_decode_loop inp (i + 4) out1
      else Some out)"
  by pat_completeness auto
termination
  by (relation "measure (\<lambda>(inp, i, out). length inp - i)") auto

definition b64_decode :: "byte list \<Rightarrow> byte list option" where
  "b64_decode inp = (if length inp mod 4 \<noteq> 0 then None else b64_decode_loop inp 0 [])"

subsection \<open>The loops, one round at a time\<close>

text \<open>
  The encoder consumes three bytes a round (fewer in the last one) and the decoder
  four characters; \<open>enc_chunks\<close> and \<open>dec_chunks\<close> state the two loops by
  recursion on the remaining input. They are proved equal to the loops above.
\<close>

definition enc3 :: "byte \<Rightarrow> byte \<Rightarrow> byte \<Rightarrow> byte list" where
  "enc3 a b c =
     (let v = ((push_bit 16 (ucast a) OR push_bit 8 (ucast b)) OR ucast c :: u32)
      in [B64 ! unat (drop_bit 18 v AND 63), B64 ! unat (drop_bit 12 v AND 63),
          B64 ! unat (drop_bit 6 v AND 63), B64 ! unat (v AND 63)])"

definition enc2 :: "byte \<Rightarrow> byte \<Rightarrow> byte list" where
  "enc2 a b =
     (let v = (push_bit 16 (ucast a) OR push_bit 8 (ucast b) :: u32)
      in [B64 ! unat (drop_bit 18 v AND 63), B64 ! unat (drop_bit 12 v AND 63),
          B64 ! unat (drop_bit 6 v AND 63), pad])"

definition enc1 :: "byte \<Rightarrow> byte list" where
  "enc1 a =
     (let v = (push_bit 16 (ucast a) :: u32)
      in [B64 ! unat (drop_bit 18 v AND 63), B64 ! unat (drop_bit 12 v AND 63), pad, pad])"

fun enc_chunks :: "byte list \<Rightarrow> byte list" where
  "enc_chunks [] = []"
| "enc_chunks [a] = enc1 a"
| "enc_chunks [a, b] = enc2 a b"
| "enc_chunks (a # b # c # r) = enc3 a b c @ enc_chunks r"

definition dec4 :: "byte \<Rightarrow> byte \<Rightarrow> byte \<Rightarrow> byte \<Rightarrow> byte list option" where
  "dec4 x0 x1 x2 x3 =
     (let c0 = REV x0; c1 = REV x1; c2 = REV x2; c3 = REV x3
      in if c0 = 255 \<or> c1 = 255 \<or> c2 = 255 \<or> c3 = 255 then None
         else
           let v = (push_bit 18 (ucast c0) OR push_bit 12 (ucast c1) :: u32);
               o1 = [ucast (drop_bit 16 v AND 0xFF)]
           in if c2 \<noteq> 254 then
                let v2 = v OR push_bit 6 (ucast c2);
                    o2 = o1 @ [ucast (drop_bit 8 v2 AND 0xFF)]
                in if c3 \<noteq> 254 then Some (o2 @ [ucast ((v2 OR ucast c3) AND 0xFF)])
                   else Some o2
              else Some o1)"

fun dec_chunks :: "byte list \<Rightarrow> byte list option" where
  "dec_chunks (x0 # x1 # x2 # x3 # r) =
     (case dec4 x0 x1 x2 x3 of
        None \<Rightarrow> None
      | Some g \<Rightarrow> (case dec_chunks r of None \<Rightarrow> None | Some t \<Rightarrow> Some (g @ t)))"
| "dec_chunks r = Some []"

text \<open>
  The number of padding characters the specification gives for an input of \<open>n\<close>
  bytes: two for one leftover byte, one for two leftover bytes.
\<close>

definition pad_count :: "nat \<Rightarrow> nat" where
  "pad_count n = (if n mod 3 = 1 then 2 else if n mod 3 = 2 then 1 else 0)"

section \<open>Framing of the pub/sub client (client.cpp)\<close>

text \<open>The message type codes of the client.\<close>

definition SUBSCRIBE :: u32 where "SUBSCRIBE = 1"
definition PUBLISH :: u32 where "PUBLISH = 2"
definition MSG :: u32 where "MSG = 3"
definition ACK :: u32 where "ACK = 4"
definition TERM_code :: u32 where "TERM_code = 5"  \<comment> \<open>\<open>TERM\<close> in the source\<close>

text \<open>
  \<open>struct Header { int type, topic_len, payload_len; }\<close> is 12 bytes. A field is
  stored with \<open>htonl\<close> and read back with \<open>ntohl\<close>, so the four bytes of a field in
  memory and on the wire are its big-endian digits, whatever the byte order of the host:
  \<open>be32\<close> writes them, \<open>rd32 d off\<close> reads the field at offset \<open>off\<close>.
\<close>

definition be32 :: "u32 \<Rightarrow> byte list" where
  "be32 w = [ucast (drop_bit 24 w), ucast (drop_bit 16 w), ucast (drop_bit 8 w), ucast w]"

definition rd32 :: "byte list \<Rightarrow> nat \<Rightarrow> u32" where
  "rd32 d off =
     ((push_bit 24 (ucast (d ! off)) OR push_bit 16 (ucast (d ! (off + 1)))) OR
       push_bit 8 (ucast (d ! (off + 2)))) OR ucast (d ! (off + 3))"

text \<open>
  \<open>send_packet_tcp\<close> writes the header, then the topic, then the payload to the
  connection; \<open>send_packet_udp\<close> builds the same bytes in one buffer and sends them as
  one datagram. The value is the byte sequence handed to the transport when every
  \<open>send\<close> succeeds. \<open>(int)topic.size()\<close> keeps the low 32 bits of the size.
\<close>

definition header_bytes :: "u32 \<Rightarrow> byte list \<Rightarrow> byte list \<Rightarrow> byte list" where
  "header_bytes type topic payload =
     be32 type @ be32 (of_nat (length topic)) @ be32 (of_nat (length payload))"

definition send_packet_tcp :: "u32 \<Rightarrow> byte list \<Rightarrow> byte list \<Rightarrow> byte list" where
  "send_packet_tcp type topic payload =
     header_bytes type topic payload
       @ (if topic \<noteq> [] then topic else [])
       @ (if payload \<noteq> [] then payload else [])"

definition send_packet_udp :: "u32 \<Rightarrow> byte list \<Rightarrow> byte list \<Rightarrow> byte list" where
  "send_packet_udp type topic payload = header_bytes type topic payload @ topic @ payload"

text \<open>
  \<open>parse_datagram(data, n, ...)\<close>. The argument is the list of the \<open>n\<close> bytes
  received. \<open>tlen\<close> and \<open>plen\<close> are \<open>int\<close>; \<open>(size_t)tlen\<close> sign-extends to 64
  bits and \<open>need\<close> is computed in \<open>size_t\<close>, wrapping around. The outcomes:
  \<^item> \<open>Malformed\<close>: the function returns \<open>false\<close>;
  \<^item> \<open>LengthError\<close>: \<open>std::string::assign\<close> is called with a count above
    \<open>max_size()\<close> and throws \<open>std::length_error\<close> before it copies; a count that is
    a negative \<open>int\<close> converted to \<open>size_t\<close> is at least \<open>2^64 - 2^31\<close>, above
    \<open>max_size()\<close>, and a non-negative \<open>int\<close> is below it;
  \<^item> \<open>ReadPastEnd\<close>: \<open>assign\<close> copies from positions at or after \<open>data + n\<close>,
    which are not bytes of the datagram.
\<close>

datatype parse_error = Malformed | LengthError | ReadPastEnd

definition assign_from :: "byte list \<Rightarrow> nat \<Rightarrow> u32 \<Rightarrow> parse_error + byte list" where
  "assign_from d off len =
     (if sint len < 0 then Inl LengthError
      else if length d < off + unat len then Inl ReadPastEnd
      else Inr (take (unat len) (drop off d)))"

definition parse_datagram :: "byte list \<Rightarrow> parse_error + (u32 \<times> byte list \<times> byte list)" where
  "parse_datagram d =
     (let n = length d in
      if n < 12 then Inl Malformed
      else
        let type = rd32 d 0;
            tlen = rd32 d 4;
            plen = rd32 d 8;
            need = (12 + scast tlen + scast plen :: u64)
        in if n < unat need then Inl Malformed
           else
             (case assign_from d 12 tlen of
                Inl e \<Rightarrow> Inl e
              | Inr topic \<Rightarrow>
                  (case assign_from d (nat (12 + sint tlen)) plen of
                     Inl e \<Rightarrow> Inl e
                   | Inr payload \<Rightarrow> Inr (type, topic, payload))))"

section \<open>The pub/sub server (server.cpp)\<close>

definition TOPIC_LEN :: nat where "TOPIC_LEN = 64"
definition MSG_LEN :: nat where "MSG_LEN = 1024"

definition TYPE_SUBSCRIBE :: u32 where "TYPE_SUBSCRIBE = 10"
definition TYPE_PUBLISH :: u32 where "TYPE_PUBLISH = 11"
definition TYPE_MSG :: u32 where "TYPE_MSG = 12"
definition TYPE_ACK :: u32 where "TYPE_ACK = 2"
definition TYPE_TERM :: u32 where "TYPE_TERM = 3"

text \<open>
  \<open>struct Message\<close> (fields \<open>type\<close>, \<open>topic\<close>, \<open>payload_len\<close>, \<open>content\<close>) and
  \<open>struct ClientInfo\<close>. A \<open>SOCKET\<close> is a number. \<open>m_topic\<close> holds the
  \<open>TOPIC_LEN\<close> bytes of the array and \<open>m_content\<close> the \<open>MSG_LEN\<close> bytes.
\<close>

record Message =
  m_type :: u32
  m_topic :: "byte list"
  m_payload_len :: u32
  m_content :: "byte list"

record ClientInfo =
  sock :: nat
  topic :: "byte list"
  subscribed :: bool

text \<open>
  A \<open>char\<close> array read as a C string ends before its first NUL byte; the topic arrays
  are taken to hold one. \<open>strncpy_n n s\<close> is the content of a destination of \<open>n\<close>
  bytes after \<open>strncpy(dst, s, n)\<close>: the string, cut at \<open>n\<close> bytes and filled up with
  NUL bytes.
\<close>

definition cstr :: "byte list \<Rightarrow> byte list" where
  "cstr s = takeWhile (\<lambda>b. b \<noteq> 0) s"

definition strncpy_n :: "nat \<Rightarrow> byte list \<Rightarrow> byte list" where
  "strncpy_n n s = take n (cstr s) @ replicate (n - length (cstr s)) 0"

text \<open>\<open>Message ack{}; ack.type = TYPE_ACK; strncpy(ack.topic, msg.topic, TOPIC_LEN)\<close>.\<close>

definition ack_for :: "Message \<Rightarrow> Message" where
  "ack_for msg =
     \<lparr>m_type = TYPE_ACK, m_topic = strncpy_n TOPIC_LEN (m_topic msg),
      m_payload_len = 0, m_content = replicate MSG_LEN 0\<rparr>"

text \<open>
  What a handler does to the outside, in order: taking and releasing \<open>clients_mtx\<close>
  (the constructor and the destructor of the \<open>lock_guard\<close>, the latter at the end of
  the enclosing block), \<open>send\<close> of a whole \<open>Message\<close> on a socket, \<open>closesocket\<close>.
\<close>

datatype event = Lock | Unlock | Send nat Message | CloseSocket nat

text \<open>The result of one \<open>recv\<close>: a whole message, or \<open>n <= 0\<close>.\<close>

datatype recv = Data Message | NoData

text \<open>\<open>main\<close> registers every accepted connection, under the lock.\<close>

definition accept_client :: "nat \<Rightarrow> ClientInfo list \<Rightarrow> ClientInfo list" where
  "accept_client s clients = clients @ [\<lparr>sock = s, topic = [], subscribed = False\<rparr>]"

text \<open>The loop of the \<open>TYPE_SUBSCRIBE\<close> branch over \<open>clients\<close>.\<close>

definition subscribe_loop :: "nat \<Rightarrow> Message \<Rightarrow> ClientInfo list \<Rightarrow> ClientInfo list" where
  "subscribe_loop clientSock msg clients =
     map (\<lambda>c. if sock c = clientSock
               then c\<lparr>subscribed := True, topic := cstr (m_topic msg)\<rparr> else c) clients"

text \<open>
  The loop of the \<open>TYPE_PUBLISH\<close> branch: one \<open>send\<close> of \<open>msg\<close> itself for every
  entry with \<open>c.subscribed && c.topic == msg.topic\<close>, in the order of \<open>clients\<close>.
\<close>

definition publish_loop :: "Message \<Rightarrow> ClientInfo list \<Rightarrow> event list" where
  "publish_loop msg clients =
     map (\<lambda>c. Send (sock c) msg)
       (filter (\<lambda>c. subscribed c \<and> topic c = cstr (m_topic msg)) clients)"

text \<open>
  \<open>handle_client\<close>, given the results of the successive \<open>recv\<close> calls on the
  connection and the registry \<open>clients\<close>; it returns the registry and the events. With no
  result left the handler is waiting in \<open>recv\<close>. A message of another type is skipped.
\<close>

fun handle_client :: "nat \<Rightarrow> recv list \<Rightarrow> ClientInfo list \<Rightarrow> ClientInfo list \<times> event list" where
  "handle_client clientSock [] clients = (clients, [])"
| "handle_client clientSock (NoData # rest) clients = (clients, [CloseSocket clientSock])"
| "handle_client clientSock (Data msg # rest) clients =
     (if m_type msg = TYPE_SUBSCRIBE then
        let clients' = subscribe_loop clientSock msg clients;
            ev = [Lock, Send clientSock (ack_for msg), Unlock];
            r = handle_client clientSock rest clients'
        in (fst r, ev @ snd r)
      else if m_type msg = TYPE_PUBLISH then
        let ev = [Lock] @ publish_loop msg clients @ [Send clientSock (ack_for msg), Unlock];
            r = handle_client clientSock rest clients
        in (fst r, ev @ snd r)
      else if m_type msg = TYPE_TERM then (clients, [CloseSocket clientSock])
      else handle_client clientSock rest clients)"

text \<open>
  The subscriber snapshot of a topic: the sockets of the entries the \<open>TYPE_PUBLISH\<close>
  branch sends to.
\<close>

definition subscribers_of :: "byte list \<Rightarrow> ClientInfo list \<Rightarrow> nat list" where
  "subscribers_of t clients = map sock (filter (\<lambda>c. subscribed c \<and> topic c = t) clients)"

text \<open>
  \<open>sends_locked held ev\<close> counts the \<open>send\<close> calls of a trace made while the lock is
  held; \<open>held\<close> says whether it is held at the start.
\<close>

fun sends_locked :: "bool \<Rightarrow> event list \<Rightarrow> nat" where
  "sends_locked held [] = 0"
| "sends_locked held (Lock # ev) = sends_locked True ev"
| "sends_locked held (Unlock # ev) = sends_locked False ev"
| "sends_locked held (Send s m # ev) = (if held then 1 else 0) + sends_locked held ev"
| "sends_locked held (CloseSocket s # ev) = sends_locked held ev"

fun sends_unlocked :: "bool \<Rightarrow> event list \<Rightarrow> nat" where
  "sends_unlocked held [] = 0"
| "sends_unlocked held (Lock # ev) = sends_unlocked True ev"
| "sends_unlocked held (Unlock # ev) = sends_unlocked False ev"
| "sends_unlocked held (Send s m # ev) = (if held then 0 else 1) + sends_unlocked held ev"
| "sends_unlocked held (CloseSocket s # ev) = sends_unlocked held ev"

text \<open>
  The bytes of a \<open>Message\<close> that \<open>send(sock, (char*)&msg, sizeof(msg), 0)\<close> puts on
  the wire: the object representation, with the two \<open>int\<close> fields in the byte order of
  the host, which is little-endian for the Windows targets of this server.
\<close>

definition le32 :: "u32 \<Rightarrow> byte list" where
  "le32 w = [ucast w, ucast (drop_bit 8 w), ucast (drop_bit 16 w), ucast (drop_bit 24 w)]"

definition rd32_le :: "byte list \<Rightarrow> nat \<Rightarrow> u32" where
  "rd32_le d off =
     ((push_bit 24 (ucast (d ! (off + 3))) OR push_bit 16 (ucast (d ! (off + 2)))) OR
       push_bit 8 (ucast (d ! (off + 1)))) OR ucast (d ! off)"

definition wire_image :: "Message \<Rightarrow> byte list" where
  "wire_image msg =
     le32 (m_type msg) @ m_topic msg @ le32 (m_payload_len msg) @ m_content msg"

text \<open>A topic array holding the string \<open>s\<close>, and a message with that topic.\<close>

definition topic_array :: "string \<Rightarrow> byte list" where
  "topic_array s = strncpy_n TOPIC_LEN (bytes_of s)"

definition mk_msg :: "u32 \<Rightarrow> string \<Rightarrow> string \<Rightarrow> Message" where
  "mk_msg t tp pl =
     \<lparr>m_type = t, m_topic = topic_array tp, m_payload_len = of_nat (length pl),
      m_content = bytes_of pl @ replicate (MSG_LEN - length pl) 0\<rparr>"

section \<open>Base64 of the pub/sub client: the loops and the round trip\<close>

declare b64_encode_loop.simps [simp del] b64_decode_loop.simps [simp del]

lemma enc_loop_done: "length d \<le> i \<Longrightarrow> b64_encode_loop d i out = out"
  by (subst b64_encode_loop.simps) simp

lemma dec_loop_done: "length d \<le> i \<Longrightarrow> b64_decode_loop d i out = Some out"
  by (subst b64_decode_loop.simps) simp

lemma enc_loop_step3:
  "i + 2 < length d \<Longrightarrow>
   b64_encode_loop d i out =
     b64_encode_loop d (i + 3) (out @ enc3 (d ! i) (d ! (i + 1)) (d ! (i + 2)))"
  by (subst b64_encode_loop.simps) (simp add: enc3_def Let_def)

lemma dec_loop_step:
  "i + 3 < length d \<Longrightarrow>
   b64_decode_loop d i out =
     (case dec4 (d ! i) (d ! (i + 1)) (d ! (i + 2)) (d ! (i + 3)) of
        None \<Rightarrow> None
      | Some g \<Rightarrow> b64_decode_loop d (i + 4) (out @ g))"
  by (subst b64_decode_loop.simps) (simp add: dec4_def Let_def)

lemma enc_loop_chunks:
  "b64_encode_loop (p @ xs) (length p) out = out @ enc_chunks xs"
proof (induction xs arbitrary: p out rule: enc_chunks.induct)
  case 1
  show ?case by (simp add: enc_loop_done)
next
  case (2 a)
  show ?case
    by (subst b64_encode_loop.simps) (simp add: enc1_def Let_def nth_append enc_loop_done)
next
  case (3 a b)
  show ?case
    by (subst b64_encode_loop.simps) (simp add: enc2_def Let_def nth_append enc_loop_done)
next
  case (4 a b c r)
  have e3: "length p + 3 = length (p @ [a, b, c])" by simp
  have "b64_encode_loop (p @ a # b # c # r) (length p) out =
        b64_encode_loop (p @ a # b # c # r) (length p + 3) (out @ enc3 a b c)"
    using enc_loop_step3[of "length p" "p @ a # b # c # r" out] by (simp add: nth_append)
  also have "\<dots> = b64_encode_loop ((p @ [a, b, c]) @ r) (length (p @ [a, b, c])) (out @ enc3 a b c)"
    unfolding e3 by simp
  also have "\<dots> = (out @ enc3 a b c) @ enc_chunks r"
    by (rule 4)
  finally show ?case by simp
qed

lemma dec_loop_chunks:
  "length xs mod 4 = 0 \<Longrightarrow>
   b64_decode_loop (p @ xs) (length p) out =
     (case dec_chunks xs of None \<Rightarrow> None | Some t \<Rightarrow> Some (out @ t))"
proof (induction xs arbitrary: p out rule: dec_chunks.induct)
  case (1 x0 x1 x2 x3 r)
  have len: "length r mod 4 = 0" using 1(2) by simp
  have e4: "length p + 4 = length (p @ [x0, x1, x2, x3])" by simp
  have step: "b64_decode_loop (p @ x0 # x1 # x2 # x3 # r) (length p) out =
        (case dec4 x0 x1 x2 x3 of None \<Rightarrow> None
         | Some g \<Rightarrow> b64_decode_loop (p @ x0 # x1 # x2 # x3 # r) (length p + 4) (out @ g))"
    using dec_loop_step[of "length p" "p @ x0 # x1 # x2 # x3 # r" out]
    by (simp add: nth_append)
  show ?case
  proof (cases "dec4 x0 x1 x2 x3")
    case None
    then show ?thesis using step by simp
  next
    case (Some g)
    have "b64_decode_loop (p @ x0 # x1 # x2 # x3 # r) (length p + 4) (out @ g) =
          b64_decode_loop ((p @ [x0, x1, x2, x3]) @ r) (length (p @ [x0, x1, x2, x3])) (out @ g)"
      unfolding e4 by simp
    also have "\<dots> = (case dec_chunks r of None \<Rightarrow> None | Some t \<Rightarrow> Some ((out @ g) @ t))"
      by (rule 1(1)[OF Some len])
    finally show ?thesis using step Some by (simp split: option.splits)
  qed
qed (simp_all add: dec_loop_done)

lemma b64_encode_chunks: "b64_encode d = enc_chunks d"
  using enc_loop_chunks[of "[]" d "[]"] by (simp add: b64_encode_def)

lemma b64_decode_chunks:
  "b64_decode xs = (if length xs mod 4 \<noteq> 0 then None else dec_chunks xs)"
  using dec_loop_chunks[of xs "[]" "[]"] by (simp add: b64_decode_def split: option.splits)

lemma len_B64: "length B64 = 64"
  by code_simp
lemma pad_notin_B64: "pad \<notin> set B64"
  by code_simp
lemma REV_pad: "REV pad = 254"
  by code_simp
lemma REV_B64_all: "\<forall>k\<in>set [0..<64]. REV (B64 ! k) = of_nat k"
  by code_simp

lemma REV_B64: "k < 64 \<Longrightarrow> REV (B64 ! k) = of_nat k"
  using REV_B64_all by simp

lemma m63: "(x::u32) AND 63 = take_bit 6 x"
  using take_bit_eq_mask[of 6 x] by (simp add: mask_eq_exp_minus_1)
lemma m255: "(x::u32) AND 255 = take_bit 8 x"
  using take_bit_eq_mask[of 8 x] by (simp add: mask_eq_exp_minus_1)

lemma sext2:
  fixes v :: u32
  shows "push_bit 18 (take_bit 6 (drop_bit 18 v)) OR push_bit 12 (take_bit 6 (drop_bit 12 v))
        = push_bit 12 (drop_bit 12 (take_bit 24 v))"
  by (rule bit_word_eqI) (auto simp: bit_simps)

lemma sext3:
  fixes v :: u32
  shows "push_bit 12 (drop_bit 12 (take_bit 24 v)) OR push_bit 6 (take_bit 6 (drop_bit 6 v))
        = push_bit 6 (drop_bit 6 (take_bit 24 v))"
  by (rule bit_word_eqI) (auto simp: bit_simps)

lemma sext4:
  fixes v :: u32
  shows "push_bit 6 (drop_bit 6 (take_bit 24 v)) OR take_bit 6 v = take_bit 24 v"
  by (rule bit_word_eqI) (auto simp: bit_simps)

lemma out0:
  fixes v :: u32
  shows "(ucast (take_bit 8 (drop_bit 16
            (push_bit 18 (take_bit 6 (drop_bit 18 v)) OR
             push_bit 12 (take_bit 6 (drop_bit 12 v))))) :: byte) = ucast (drop_bit 16 v)"
  unfolding sext2
  by (rule bit_word_eqI) (auto simp: bit_simps)

lemma out1:
  fixes v :: u32
  shows "(ucast (take_bit 8 (drop_bit 8
            ((push_bit 18 (take_bit 6 (drop_bit 18 v)) OR
              push_bit 12 (take_bit 6 (drop_bit 12 v))) OR
             push_bit 6 (take_bit 6 (drop_bit 6 v))))) :: byte) = ucast (drop_bit 8 v)"
  unfolding sext2 sext3
  by (rule bit_word_eqI) (auto simp: bit_simps)

lemma out2:
  fixes v :: u32
  shows "(ucast (take_bit 8
            (((push_bit 18 (take_bit 6 (drop_bit 18 v)) OR
               push_bit 12 (take_bit 6 (drop_bit 12 v))) OR
              push_bit 6 (take_bit 6 (drop_bit 6 v))) OR
             take_bit 6 v)) :: byte) = ucast v"
  unfolding sext2 sext3 sext4
  by (rule bit_word_eqI) (auto simp: bit_simps)

lemma byte0:
  fixes a b c :: byte
  shows "ucast (drop_bit 16 ((push_bit 16 (ucast a) OR push_bit 8 (ucast b)) OR ucast c :: u32)) = a"
  by (rule bit_word_eqI) (auto simp: bit_simps dest: bit_imp_le_length)

lemma byte1:
  fixes a b c :: byte
  shows "ucast (drop_bit 8 ((push_bit 16 (ucast a) OR push_bit 8 (ucast b)) OR ucast c :: u32)) = b"
  by (rule bit_word_eqI) (auto simp: bit_simps dest: bit_imp_le_length)

lemma byte2:
  fixes a b c :: byte
  shows "ucast ((push_bit 16 (ucast a) OR push_bit 8 (ucast b)) OR ucast c :: u32) = c"
  by (rule bit_word_eqI) (auto simp: bit_simps dest: bit_imp_le_length)

lemma byte0_2:
  fixes a b :: byte
  shows "ucast (drop_bit 16 (push_bit 16 (ucast a) OR push_bit 8 (ucast b) :: u32)) = a"
  by (rule bit_word_eqI) (auto simp: bit_simps dest: bit_imp_le_length)

lemma byte1_2:
  fixes a b :: byte
  shows "ucast (drop_bit 8 (push_bit 16 (ucast a) OR push_bit 8 (ucast b) :: u32)) = b"
  by (rule bit_word_eqI) (auto simp: bit_simps dest: bit_imp_le_length)

lemma byte0_1:
  fixes a :: byte
  shows "ucast (drop_bit 16 (push_bit 16 (ucast a) :: u32)) = a"
  by (rule bit_word_eqI) (auto simp: bit_simps dest: bit_imp_le_length)

lemma sextet_lt: "unat (take_bit 6 (x::u32)) < 64"
proof -
  have "unat (take_bit 6 x) = take_bit 6 (unat x)" by (simp add: unsigned_take_bit_eq)
  also have "\<dots> < 2 ^ 6" by (rule take_bit_nat_less_exp)
  finally show ?thesis by simp
qed

lemma B64_sextet_in: "B64 ! unat (take_bit 6 (x::u32)) \<in> set B64"
  using sextet_lt[of x] by (simp add: len_B64)

lemma REV_sextet: "REV (B64 ! unat (take_bit 6 (x::u32))) = ucast (take_bit 6 x)"
  using REV_B64[OF sextet_lt[of x]] by simp

lemma sextet_back: "(ucast (ucast (take_bit 6 (x::u32)) :: byte) :: u32) = take_bit 6 x"
  by (rule bit_word_eqI) (auto simp: bit_simps)

lemma sextet_byte_lt: "(ucast (take_bit 6 (x::u32)) :: byte) < 64"
proof -
  let ?y = "ucast (take_bit 6 x) :: byte"
  have "?y = take_bit 6 ?y"
    by (rule bit_word_eqI) (auto simp: bit_simps)
  then have "unat ?y = take_bit 6 (unat ?y)"
    by (metis unsigned_take_bit_eq)
  also have "\<dots> < 2 ^ 6" by (rule take_bit_nat_less_exp)
  finally show ?thesis by (simp add: word_less_nat_alt)
qed

lemma sextet_ne:
  "(ucast (take_bit 6 (x::u32)) :: byte) \<noteq> 255"
  "(ucast (take_bit 6 (x::u32)) :: byte) \<noteq> 254"
  using sextet_byte_lt[of x] by auto


lemmas dec4_unfold = dec4_def Let_def m63 m255 REV_sextet REV_pad sextet_back sextet_ne
  out0 out1 out2 simp_thms if_False if_True append_Cons append_Nil

lemma dec4_full:
  fixes v :: u32
  shows "dec4 (B64 ! unat (drop_bit 18 v AND 63)) (B64 ! unat (drop_bit 12 v AND 63))
              (B64 ! unat (drop_bit 6 v AND 63)) (B64 ! unat (v AND 63)) =
         Some [ucast (drop_bit 16 v), ucast (drop_bit 8 v), ucast v]"
  by (simp only: dec4_unfold)

lemma dec4_pad1:
  fixes v :: u32
  shows "dec4 (B64 ! unat (drop_bit 18 v AND 63)) (B64 ! unat (drop_bit 12 v AND 63))
              (B64 ! unat (drop_bit 6 v AND 63)) pad =
         Some [ucast (drop_bit 16 v), ucast (drop_bit 8 v)]"
  by (simp only: dec4_unfold) simp

lemma dec4_pad2:
  fixes v :: u32
  shows "dec4 (B64 ! unat (drop_bit 18 v AND 63)) (B64 ! unat (drop_bit 12 v AND 63)) pad pad =
         Some [ucast (drop_bit 16 v)]"
  by (simp only: dec4_unfold) simp

lemma dec_chunks_enc3:
  "dec_chunks (enc3 a b c @ t) =
     (case dec_chunks t of None \<Rightarrow> None | Some u \<Rightarrow> Some ([a, b, c] @ u))"
  unfolding enc3_def Let_def
  by (simp only: append_Cons append_Nil dec_chunks.simps dec4_full byte0 byte1 byte2 option.case)

lemma dec_chunks_enc2: "dec_chunks (enc2 a b) = Some [a, b]"
  unfolding enc2_def Let_def
  by (simp only: append_Cons append_Nil dec_chunks.simps dec4_pad1 byte0_2 byte1_2 option.case)

lemma dec_chunks_enc1: "dec_chunks (enc1 a) = Some [a]"
  unfolding enc1_def Let_def
  by (simp only: append_Cons append_Nil dec_chunks.simps dec4_pad2 byte0_1 option.case)

lemma dec_enc_chunks: "dec_chunks (enc_chunks x) = Some x"
  by (induction x rule: enc_chunks.induct)
     (simp_all add: dec_chunks_enc1 dec_chunks_enc2 dec_chunks_enc3)

lemma length_enc3: "length (enc3 a b c) = 4"
  by (simp add: enc3_def Let_def)
lemma length_enc2: "length (enc2 a b) = 4"
  by (simp add: enc2_def Let_def)
lemma length_enc1: "length (enc1 a) = 4"
  by (simp add: enc1_def Let_def)

lemma length_enc_chunks: "length (enc_chunks x) = 4 * ((length x + 2) div 3)"
proof (induction x rule: enc_chunks.induct)
  case (4 a b c r)
  have "(length (a # b # c # r) + 2) div 3 = (length r + 2) div 3 + 1" by simp
  then show ?case using 4 by (simp only: enc_chunks.simps length_append length_enc3) simp
qed (simp_all add: length_enc1 length_enc2)

text \<open>
  Claim C1: for every byte sequence \<open>x\<close>, the empty one included, decoding the
  encoding of \<open>x\<close> succeeds and returns exactly \<open>x\<close>.
\<close>

theorem C1_b64_roundtrip: "b64_decode (b64_encode x) = Some x"
  by (simp add: b64_decode_chunks b64_encode_chunks length_enc_chunks dec_enc_chunks)

theorem C1_b64_roundtrip_witness:
  "b64_decode (b64_encode (bytes_of ''sunny'')) = Some (bytes_of ''sunny'')"
  by (rule C1_b64_roundtrip)

section \<open>Base64 of the pub/sub client: rejection and the shape of the encoding\<close>

lemma foldl_upd_other:
  "\<forall>i\<in>set js. f i \<noteq> j \<Longrightarrow> (foldl (\<lambda>r i. r[f i := g i]) r js) ! j = r ! j"
  by (induction js arbitrary: r) simp_all

lemma tbl_other:
  "\<forall>i\<in>set js. f i \<noteq> j \<Longrightarrow> p \<noteq> j \<Longrightarrow>
   ((foldl (\<lambda>r i. r[f i := g i]) r js)[p := v]) ! j = r ! j"
  by (simp add: foldl_upd_other)

lemma length_foldl_upd: "length (foldl (\<lambda>r i. r[f i := g i]) r js) = length r"
  by (induction js arbitrary: r) simp_all

lemma REV_outside:
  assumes "c \<notin> set B64" "c \<noteq> pad"
  shows "REV c = 255"
proof -
  have ne: "\<forall>i\<in>set [0..<64]. unat (B64 ! i) \<noteq> unat c"
  proof
    fix i assume "i \<in> set [0..<64]"
    then have "B64 ! i \<in> set B64" by (simp add: len_B64)
    with assms(1) have "B64 ! i \<noteq> c" by auto
    then show "unat (B64 ! i) \<noteq> unat c" using word_unat_eq_iff[of "B64 ! i" c] by simp
  qed
  have lt: "unat c < 256" using unsigned_less[of c, where 'a=nat] by simp
  have pne: "unat pad \<noteq> unat c" using assms(2) word_unat_eq_iff[of pad c] by simp
  have "init_rev ! unat c = (replicate 256 (255::byte)) ! unat c"
    unfolding init_rev_def by (rule tbl_other[OF ne pne])
  also have "\<dots> = 255" using lt by (simp only: nth_replicate)
  finally show ?thesis by (simp only: REV_def)
qed

lemma of_nat_byte_ne_255: "k < 64 \<Longrightarrow> (of_nat k :: byte) \<noteq> 255"
proof
  assume k: "k < 64" and e: "(of_nat k :: byte) = 255"
  have "unat (of_nat k :: byte) = k" using k by (simp add: unat_of_nat)
  with e show False using k by simp
qed

lemma REV_255_iff: "REV c = 255 \<longleftrightarrow> c \<notin> set B64 \<and> c \<noteq> pad"
proof
  assume r: "REV c = 255"
  have "c \<notin> set B64"
  proof
    assume "c \<in> set B64"
    then obtain k where k: "k < 64" "c = B64 ! k"
      by (auto simp: in_set_conv_nth len_B64)
    then show False using REV_B64[OF k(1)] r of_nat_byte_ne_255[OF k(1)] by simp
  qed
  moreover have "c \<noteq> pad" using r REV_pad by auto
  ultimately show "c \<notin> set B64 \<and> c \<noteq> pad" by simp
next
  assume "c \<notin> set B64 \<and> c \<noteq> pad"
  then show "REV c = 255" by (simp add: REV_outside)
qed

lemma dec4_None_iff:
  "dec4 x0 x1 x2 x3 = None \<longleftrightarrow> REV x0 = 255 \<or> REV x1 = 255 \<or> REV x2 = 255 \<or> REV x3 = 255"
  by (simp add: dec4_def Let_def)

lemma dec_chunks_None_iff:
  "length xs mod 4 = 0 \<Longrightarrow> dec_chunks xs = None \<longleftrightarrow> (\<exists>c\<in>set xs. REV c = 255)"
proof (induction xs rule: dec_chunks.induct)
  case (1 x0 x1 x2 x3 r)
  have len: "length r mod 4 = 0" using 1(2) by simp
  show ?case
  proof (cases "dec4 x0 x1 x2 x3")
    case None
    then show ?thesis using dec4_None_iff[of x0 x1 x2 x3] by auto
  next
    case (Some g)
    then have "\<not> (REV x0 = 255 \<or> REV x1 = 255 \<or> REV x2 = 255 \<or> REV x3 = 255)"
      using dec4_None_iff[of x0 x1 x2 x3] by simp
    then show ?thesis using 1(1)[OF Some len] Some by (auto split: option.splits)
  qed
qed simp_all

text \<open>
  Claim C6, as the code has it: \<open>b64_decode\<close> fails exactly when the length
  of the text is not a multiple of 4 or some character is neither in the alphabet nor the
  padding character. The padding character is accepted at every position; a text with
  \<open>=\<close> in a non-trailing position is decoded, not rejected.
\<close>

theorem C6_b64_decode_fails_iff:
  "b64_decode s = None \<longleftrightarrow>
     (length s mod 4 \<noteq> 0 \<or> (\<exists>c\<in>set s. c \<notin> set B64 \<and> c \<noteq> pad))"
  by (simp add: b64_decode_chunks dec_chunks_None_iff REV_255_iff)

theorem C6_b64_decode_fails_iff_witness:
  "b64_decode (bytes_of ''ab!d'') = None \<and> b64_decode (bytes_of ''c3Vubnk='') \<noteq> None"
proof -
  have a: "length (bytes_of ''ab!d'') mod 4 \<noteq> 0 \<or>
           (\<exists>c\<in>set (bytes_of ''ab!d''). c \<notin> set B64 \<and> c \<noteq> pad)"
    by code_simp
  have b: "\<not> (length (bytes_of ''c3Vubnk='') mod 4 \<noteq> 0 \<or>
           (\<exists>c\<in>set (bytes_of ''c3Vubnk=''). c \<notin> set B64 \<and> c \<noteq> pad))"
    by code_simp
  show ?thesis
    using C6_b64_decode_fails_iff[of "bytes_of ''ab!d''"]
      C6_b64_decode_fails_iff[of "bytes_of ''c3Vubnk=''"] a b
    by blast
qed

text \<open>
  The text \<open>A=AA\<close> has length 4, all its characters are in the alphabet or are
  the padding character, and its second character is a non-trailing \<open>=\<close>; the
  decoder returns three bytes for it.
\<close>

theorem C6_nontrailing_pad_accepted:
  "bytes_of ''A=AA'' ! 1 = pad \<and> b64_decode (bytes_of ''A=AA'') = Some [15, 224, 0]"
  by code_simp

lemma B64_sextet_in': "B64 ! unat ((x::u32) AND 63) \<in> set B64"
  by (simp only: m63 B64_sextet_in)

lemma enc3_in: "set (enc3 a b c) \<subseteq> set B64"
  unfolding enc3_def Let_def
  by (simp only: list.set insert_subset B64_sextet_in' empty_subsetI simp_thms)

lemma enc2_shape: "\<exists>y0 y1 y2. enc2 a b = [y0, y1, y2, pad] \<and> {y0, y1, y2} \<subseteq> set B64"
  unfolding enc2_def Let_def
  by (intro exI conjI, rule refl) (simp only: insert_subset B64_sextet_in' empty_subsetI simp_thms)

lemma enc1_shape: "\<exists>y0 y1. enc1 a = [y0, y1, pad, pad] \<and> {y0, y1} \<subseteq> set B64"
  unfolding enc1_def Let_def
  by (intro exI conjI, rule refl) (simp only: insert_subset B64_sextet_in' empty_subsetI simp_thms)

lemma enc_chunks_shape:
  "\<exists>pre. enc_chunks x = pre @ replicate (pad_count (length x)) pad \<and> set pre \<subseteq> set B64"
proof (induction x rule: enc_chunks.induct)
  case 1
  show ?case by (simp add: pad_count_def)
next
  case (2 a)
  obtain y0 y1 where "enc1 a = [y0, y1, pad, pad]" "{y0, y1} \<subseteq> set B64"
    using enc1_shape by blast
  then have "enc_chunks [a] = [y0, y1] @ replicate (pad_count (length [a])) pad \<and>
             set [y0, y1] \<subseteq> set B64"
    by (simp add: pad_count_def numeral_2_eq_2)
  then show ?case by blast
next
  case (3 a b)
  obtain y0 y1 y2 where "enc2 a b = [y0, y1, y2, pad]" "{y0, y1, y2} \<subseteq> set B64"
    using enc2_shape by blast
  then have "enc_chunks [a, b] = [y0, y1, y2] @ replicate (pad_count (length [a, b])) pad \<and>
             set [y0, y1, y2] \<subseteq> set B64"
    by (simp add: pad_count_def)
  then show ?case by blast
next
  case (4 a b c r)
  then obtain pre where pre: "enc_chunks r = pre @ replicate (pad_count (length r)) pad"
    "set pre \<subseteq> set B64" by blast
  have pc: "pad_count (length (a # b # c # r)) = pad_count (length r)"
    by (simp add: pad_count_def)
  have "enc_chunks (a # b # c # r) = (enc3 a b c @ pre) @ replicate (pad_count (length (a # b # c # r))) pad"
    unfolding pc using pre(1) by simp
  moreover have "set (enc3 a b c @ pre) \<subseteq> set B64" using pre(2) enc3_in by simp
  ultimately show ?case by blast
qed

text \<open>
  Claim C9: for an input of \<open>n\<close> bytes the encoder returns exactly
  \<open>4 * ceil(n / 3)\<close> characters (\<open>(n + 2) div 3\<close> is that ceiling), each in
  the alphabet or the padding character; the padding characters are exactly the last
  \<open>pad_count n\<close> ones: two when \<open>n mod 3 = 1\<close>, one when \<open>n mod 3 = 2\<close>,
  none when \<open>n mod 3 = 0\<close>.
\<close>

theorem C9_b64_encode_shape:
  "length (b64_encode x) = 4 * ((length x + 2) div 3) \<and>
   set (b64_encode x) \<subseteq> set B64 \<union> {pad} \<and>
   pad \<notin> set B64 \<and>
   set (take (length (b64_encode x) - pad_count (length x)) (b64_encode x)) \<subseteq> set B64 \<and>
   drop (length (b64_encode x) - pad_count (length x)) (b64_encode x) =
     replicate (pad_count (length x)) pad"
proof -
  obtain pre where pre: "enc_chunks x = pre @ replicate (pad_count (length x)) pad"
    "set pre \<subseteq> set B64" using enc_chunks_shape by blast
  have l: "length (enc_chunks x) - pad_count (length x) = length pre"
    by (subst pre(1)) simp
  have "set (enc_chunks x) \<subseteq> set B64 \<union> {pad}"
    by (subst pre(1)) (use pre(2) in auto)
  moreover have "take (length pre) (enc_chunks x) = pre" by (subst pre(1)) simp
  moreover have "drop (length pre) (enc_chunks x) = replicate (pad_count (length x)) pad"
    by (subst pre(1)) simp
  ultimately have "set (enc_chunks x) \<subseteq> set B64 \<union> {pad} \<and>
      set (take (length (enc_chunks x) - pad_count (length x)) (enc_chunks x)) \<subseteq> set B64 \<and>
      drop (length (enc_chunks x) - pad_count (length x)) (enc_chunks x) =
        replicate (pad_count (length x)) pad"
    using pre(2) by (simp only: l simp_thms)
  then show ?thesis
    using length_enc_chunks[of x] pad_notin_B64 by (simp only: b64_encode_chunks simp_thms)
qed

theorem C9_b64_encode_shape_witness:
  "length (b64_encode (bytes_of ''su'')) = 4 * ((length (bytes_of ''su'') + 2) div 3) \<and>
   set (b64_encode (bytes_of ''su'')) \<subseteq> set B64 \<union> {pad} \<and>
   pad \<notin> set B64 \<and>
   set (take (length (b64_encode (bytes_of ''su'')) - pad_count (length (bytes_of ''su'')))
          (b64_encode (bytes_of ''su''))) \<subseteq> set B64 \<and>
   drop (length (b64_encode (bytes_of ''su'')) - pad_count (length (bytes_of ''su'')))
     (b64_encode (bytes_of ''su'')) =
     replicate (pad_count (length (bytes_of ''su''))) pad"
  by (rule C9_b64_encode_shape)


end
